theory Spec2Isabelle
  imports Main "HOL-Library.Sublist" "HOL-Library.Extended_Nat" "HOL-Library.Multiset"
begin

section \<open>Strings of the embedded script\<close>

text \<open>
  The search and the transcript window are the JavaScript functions \<^verbatim>\<open>searchByTopics\<close>,
  \<^verbatim>\<open>handleGetVideoContent\<close> and \<^verbatim>\<open>formatTime\<close> that \<^verbatim>\<open>src/app.py\<close> emits into the page.
  A string is a list of UTF-16 code units; the model covers the strings whose code units
  lie below 256 (U+0000 to U+00FF), one \<^typ>\<open>char\<close> each. On these \<^verbatim>\<open>toLowerCase\<close> works unit by
  unit: it maps the 26 letters and the letters U+00C0 to U+00DE (U+00D7, the multiplication
  sign, apart) to the unit 32 above and leaves every other unit alone. The whitespace class
  of the regular expression \<^verbatim>\<open>\s\<close> holds, below 256, tab, line feed, vertical tab, form feed,
  carriage return, space and the no-break space U+00A0.
\<close>

definition upperLetters :: string where
  "upperLetters = ''ABCDEFGHIJKLMNOPQRSTUVWXYZ'' @
     [CHR 0xC0, CHR 0xC1, CHR 0xC2, CHR 0xC3, CHR 0xC4, CHR 0xC5, CHR 0xC6, CHR 0xC7, CHR 0xC8,
      CHR 0xC9, CHR 0xCA, CHR 0xCB, CHR 0xCC, CHR 0xCD, CHR 0xCE, CHR 0xCF, CHR 0xD0, CHR 0xD1,
      CHR 0xD2, CHR 0xD3, CHR 0xD4, CHR 0xD5, CHR 0xD6,
      CHR 0xD8, CHR 0xD9, CHR 0xDA, CHR 0xDB, CHR 0xDC, CHR 0xDD, CHR 0xDE]"

definition lowerLetters :: string where
  "lowerLetters = ''abcdefghijklmnopqrstuvwxyz'' @
     [CHR 0xE0, CHR 0xE1, CHR 0xE2, CHR 0xE3, CHR 0xE4, CHR 0xE5, CHR 0xE6, CHR 0xE7, CHR 0xE8,
      CHR 0xE9, CHR 0xEA, CHR 0xEB, CHR 0xEC, CHR 0xED, CHR 0xEE, CHR 0xEF, CHR 0xF0, CHR 0xF1,
      CHR 0xF2, CHR 0xF3, CHR 0xF4, CHR 0xF5, CHR 0xF6,
      CHR 0xF8, CHR 0xF9, CHR 0xFA, CHR 0xFB, CHR 0xFC, CHR 0xFD, CHR 0xFE]"

definition toLowerChar :: "char \<Rightarrow> char" where
  "toLowerChar c = (case map_of (zip upperLetters lowerLetters) c of None \<Rightarrow> c | Some l \<Rightarrow> l)"

definition toLowerCase :: "string \<Rightarrow> string" where
  "toLowerCase s = map toLowerChar s"

text \<open>
  \<^verbatim>\<open>toUpperCase\<close> is not called by the script; the claim about upper-cased queries needs it.
  The sharp s U+00DF becomes the two units \<^verbatim>\<open>SS\<close>. The upper-case forms of the micro sign
  U+00B5 and of U+00FF lie above U+00FF: a string that holds one of them has no upper-cased
  form in this model (\<open>None\<close>).
\<close>

definition toUpperChar :: "char \<Rightarrow> string option" where
  "toUpperChar c =
     (if c = CHR 0xDF then Some ''SS''
      else if c = CHR 0xB5 \<or> c = CHR 0xFF then None
      else (case map_of (zip lowerLetters upperLetters) c of None \<Rightarrow> Some [c] | Some u \<Rightarrow> Some [u]))"

fun toUpperCase :: "string \<Rightarrow> string option" where
  "toUpperCase [] = Some []"
| "toUpperCase (c # cs) =
     (case toUpperChar c of
        None \<Rightarrow> None
      | Some u \<Rightarrow> (case toUpperCase cs of None \<Rightarrow> None | Some us \<Rightarrow> Some (u @ us)))"

definition isAscii :: "char \<Rightarrow> bool" where
  "isAscii c = ((of_char c :: nat) < 128)"

definition isSpace :: "char \<Rightarrow> bool" where
  "isSpace c =
     (c \<in> set [CHR 0x09, CHR 0x0A, CHR 0x0B, CHR 0x0C, CHR 0x0D, CHR '' '', CHR 0xA0])"

text \<open>
  \<^verbatim>\<open>s.split(/\s+/)\<close>: the pieces between maximal runs of whitespace. A run at the start or at
  the end of the string leaves an empty piece there, and the empty string splits into one
  empty piece.
\<close>

function split_ws :: "string \<Rightarrow> string list" where
  "split_ws [] = [[]]"
| "split_ws (c # cs) =
     (if isSpace c then [] # split_ws (dropWhile isSpace cs)
      else (case split_ws cs of [] \<Rightarrow> [[c]] | t # ts \<Rightarrow> (c # t) # ts))"
  by pat_completeness auto
termination
  by (relation "measure length") (auto simp: le_imp_less_Suc length_dropWhile_le)

text \<open>\<^verbatim>\<open>s.startsWith(t)\<close> and \<^verbatim>\<open>s.includes(t)\<close>.\<close>

fun startsWith :: "string \<Rightarrow> string \<Rightarrow> bool" where
  "startsWith s [] = True"
| "startsWith [] (c # cs) = False"
| "startsWith (x # xs) (c # cs) = (x = c \<and> startsWith xs cs)"

fun includes_str :: "string \<Rightarrow> string \<Rightarrow> bool" where
  "includes_str [] t = (t = [])"
| "includes_str (x # xs) t = (startsWith (x # xs) t \<or> includes_str xs t)"

text \<open>\<^verbatim>\<open>xs.join(sep)\<close>.\<close>

fun join :: "string \<Rightarrow> string list \<Rightarrow> string" where
  "join sep [] = []"
| "join sep [x] = x"
| "join sep (x # y # ys) = x @ sep @ join sep (y # ys)"

section \<open>The catalog\<close>

text \<open>
  A catalog entry as \<^verbatim>\<open>generate_html\<close> writes it into \<^verbatim>\<open>VIDEOS_DATA\<close>. The fields the two
  operations read are kept; a field that the script defaults with \<^verbatim>\<open>||\<close> is optional
  (\<open>None\<close> is JSON \<^verbatim>\<open>null\<close> or a missing key). The segment bounds are the integers that
  \<^verbatim>\<open>int(seg.get("start", 0))\<close> and \<^verbatim>\<open>int(seg.get("end", 0))\<close> produce.
\<close>

record segment =
  start :: int
  end_seg :: int
  text_seg :: string

record video =
  id_vid :: "string option"
  title :: "string option"
  topics :: "string list option"
  keywords_vid :: "string list option"
  transcript :: "segment list option"

text \<open>The object \<^verbatim>\<open>{ ...video, score }\<close>.\<close>

record scored_video =
  video :: video
  score :: int

section \<open>Relevance search\<close>

text \<open>The body of the inner \<^verbatim>\<open>allWords.forEach\<close>: one token of \<^verbatim>\<open>allText\<close>.\<close>

definition prefixStep :: "string \<Rightarrow> string \<Rightarrow> int \<Rightarrow> int" where
  "prefixStep word w score0 = (if startsWith w word \<and> w \<noteq> word then score0 + 3 else score0)"

text \<open>The body of \<^verbatim>\<open>queryWords.forEach\<close>: one word of the query.\<close>

definition wordStep :: "string \<Rightarrow> string \<Rightarrow> string \<Rightarrow> string \<Rightarrow> string \<Rightarrow> int \<Rightarrow> int" where
  "wordStep topicsT keywordsT titleT allText word score0 =
     (let score1 = (if includes_str topicsT word then score0 + 10 else score0);
          score2 = (if includes_str keywordsT word then score1 + 8 else score1);
          score3 = (if includes_str titleT word then score2 + 15 else score2);
          allWords = split_ws allText
      in fold (prefixStep word) allWords score3)"

definition topicsText :: "video \<Rightarrow> string" where
  "topicsText v = toLowerCase (join '' '' (case topics v of None \<Rightarrow> [] | Some ts \<Rightarrow> ts))"

definition keywordsText :: "video \<Rightarrow> string" where
  "keywordsText v = toLowerCase (join '' '' (case keywords_vid v of None \<Rightarrow> [] | Some ks \<Rightarrow> ks))"

definition titleText :: "video \<Rightarrow> string" where
  "titleText v = toLowerCase (case title v of None \<Rightarrow> [] | Some t \<Rightarrow> t)"

definition allTextOf :: "video \<Rightarrow> string" where
  "allTextOf v = topicsText v @ '' '' @ keywordsText v @ '' '' @ titleText v"

text \<open>The callback of \<^verbatim>\<open>VIDEOS_DATA.map\<close>: the score of one video.\<close>

definition scoreVideo :: "string \<Rightarrow> string list \<Rightarrow> video \<Rightarrow> int" where
  "scoreVideo queryLower queryWords v =
     (let allText = allTextOf v;
          score0 = (if includes_str allText queryLower then 20 else 0)
      in fold (wordStep (topicsText v) (keywordsText v) (titleText v) allText) queryWords score0)"

definition queryWordsOf :: "string \<Rightarrow> string list" where
  "queryWordsOf queryLower = filter (\<lambda>w. length w > 1) (split_ws queryLower)"

text \<open>
  \<^verbatim>\<open>xs.sort(cmp)\<close> is a stable sort: an element moves in front of another one only where
  the comparator is positive for the pair in their current order. Insertion from the right
  end is such a sort.
\<close>

fun insertBy :: "('a \<Rightarrow> 'a \<Rightarrow> int) \<Rightarrow> 'a \<Rightarrow> 'a list \<Rightarrow> 'a list" where
  "insertBy cmp x [] = [x]"
| "insertBy cmp x (y # ys) = (if cmp x y \<le> 0 then x # y # ys else y # insertBy cmp x ys)"

definition sortBy :: "('a \<Rightarrow> 'a \<Rightarrow> int) \<Rightarrow> 'a list \<Rightarrow> 'a list" where
  "sortBy cmp xs = foldr (insertBy cmp) xs []"

definition byScoreDesc :: "scored_video \<Rightarrow> scored_video \<Rightarrow> int" where
  "byScoreDesc a b = score b - score a"

definition scored :: "video list \<Rightarrow> string \<Rightarrow> scored_video list" where
  "scored VIDEOS_DATA query =
     (let queryLower = toLowerCase query;
          queryWords = queryWordsOf queryLower
      in map (\<lambda>v. \<lparr>video = v, score = scoreVideo queryLower queryWords v\<rparr>) VIDEOS_DATA)"

definition searchByTopics :: "video list \<Rightarrow> string \<Rightarrow> scored_video list" where
  "searchByTopics VIDEOS_DATA query =
     (if query = [] \<or> VIDEOS_DATA = [] then []
      else sortBy byScoreDesc (filter (\<lambda>v. score v > 0) (scored VIDEOS_DATA query)))"

section \<open>Relevance search on the store\<close>

text \<open>
  The arrays of the script live in a store: an address is an index into the list of all
  arrays allocated so far, and a new array is appended. \<^verbatim>\<open>map\<close> and \<^verbatim>\<open>filter\<close> allocate
  their result; \<^verbatim>\<open>sort\<close> overwrites the array it is called on and returns that same array;
  the objects inside are never assigned to. \<^verbatim>\<open>VIDEOS_DATA\<close> is the address of the catalog.
\<close>

datatype jsarray = VideoArray "video list" | ScoredArray "scored_video list"

type_synonym store = "jsarray list"

definition lookup :: "store \<Rightarrow> nat \<Rightarrow> jsarray option" where
  "lookup h r = (if r < length h then Some (h ! r) else None)"

definition alloc :: "jsarray \<Rightarrow> store \<Rightarrow> nat \<times> store" where
  "alloc a h = (length h, h @ [a])"

definition map_scored :: "string \<Rightarrow> nat \<Rightarrow> store \<Rightarrow> nat \<times> store" where
  "map_scored query r h =
     (case lookup h r of
        Some (VideoArray vs) \<Rightarrow> alloc (ScoredArray (scored vs query)) h
      | _ \<Rightarrow> alloc (ScoredArray []) h)"

definition filter_positive :: "nat \<Rightarrow> store \<Rightarrow> nat \<times> store" where
  "filter_positive r h =
     (case lookup h r of
        Some (ScoredArray xs) \<Rightarrow> alloc (ScoredArray (filter (\<lambda>v. score v > 0) xs)) h
      | _ \<Rightarrow> alloc (ScoredArray []) h)"

definition sort_in_place :: "nat \<Rightarrow> store \<Rightarrow> nat \<times> store" where
  "sort_in_place r h =
     (case lookup h r of
        Some (ScoredArray xs) \<Rightarrow> (r, h[r := ScoredArray (sortBy byScoreDesc xs)])
      | _ \<Rightarrow> (r, h))"

definition searchByTopics_store :: "nat \<Rightarrow> string \<Rightarrow> store \<Rightarrow> nat \<times> store" where
  "searchByTopics_store VIDEOS_DATA query h =
     (case lookup h VIDEOS_DATA of
        Some (VideoArray vs) \<Rightarrow>
          if query = [] \<or> vs = [] then alloc (ScoredArray []) h
          else (let (r1, h1) = map_scored query VIDEOS_DATA h;
                    (r2, h2) = filter_positive r1 h1
                in sort_in_place r2 h2)
      | _ \<Rightarrow> alloc (ScoredArray []) h)"

section \<open>Transcript window\<close>

text \<open>Numbers as \<^verbatim>\<open>+\<close> and \<^verbatim>\<open>toString\<close> print them (integers only), and \<^verbatim>\<open>padStart\<close>.\<close>

definition digitChar :: "nat \<Rightarrow> char" where
  "digitChar n = ''0123456789'' ! (n mod 10)"

fun showNat :: "nat \<Rightarrow> string" where
  "showNat n = (if n < 10 then [digitChar n] else showNat (n div 10) @ [digitChar n])"

declare showNat.simps [simp del]

definition showInt :: "int \<Rightarrow> string" where
  "showInt i = (if i < 0 then ''-'' @ showNat (nat (- i)) else showNat (nat i))"

definition padStart :: "nat \<Rightarrow> char \<Rightarrow> string \<Rightarrow> string" where
  "padStart n c s = replicate (n - length s) c @ s"

text \<open>
  \<^verbatim>\<open>a % b\<close> takes the sign of \<open>a\<close>; \<^verbatim>\<open>Math.floor(a / b)\<close> of two integers is the floored
  quotient.
\<close>

definition jsRem :: "int \<Rightarrow> int \<Rightarrow> int" where
  "jsRem a b = (if a < 0 then - ((- a) mod \<bar>b\<bar>) else a mod \<bar>b\<bar>)"

definition formatTime :: "int \<Rightarrow> string" where
  "formatTime seconds =
     (let mins = seconds div 60;
          secs = jsRem seconds 60
      in showInt mins @ '':'' @ padStart 2 (CHR ''0'') (showInt secs))"

definition transcriptOf :: "video \<Rightarrow> segment list" where
  "transcriptOf v = (case transcript v of None \<Rightarrow> [] | Some tr \<Rightarrow> tr)"

text \<open>The \<^verbatim>\<open>filter\<close> that initialises \<^verbatim>\<open>relevantSegments\<close>.\<close>

definition relevantSegments :: "video \<Rightarrow> int \<Rightarrow> segment list" where
  "relevantSegments v timestamp =
     (let startRange = max 0 (timestamp - 10);
          endRange = timestamp + 10
      in filter (\<lambda>seg. (start seg \<ge> startRange \<and> start seg \<le> endRange) \<or>
                       (end_seg seg \<ge> startRange \<and> end_seg seg \<le> endRange) \<or>
                       (start seg \<le> startRange \<and> end_seg seg \<ge> endRange))
           (transcriptOf v))"

text \<open>
  The loop over the transcript that looks for the closest segment; its state is
  \<^verbatim>\<open>closestSeg\<close> (\<open>None\<close> is \<^verbatim>\<open>null\<close>) and \<^verbatim>\<open>minDist\<close> (\<open>\<infinity>\<close> is \<^verbatim>\<open>Infinity\<close>).
\<close>

definition boundaryDist :: "int \<Rightarrow> segment \<Rightarrow> int" where
  "boundaryDist timestamp seg = min \<bar>start seg - timestamp\<bar> \<bar>end_seg seg - timestamp\<bar>"

definition closestStep :: "int \<Rightarrow> segment \<Rightarrow> segment option \<times> enat \<Rightarrow> segment option \<times> enat" where
  "closestStep timestamp seg st =
     (let dist = boundaryDist timestamp seg
      in if enat (nat dist) < snd st then (Some seg, enat (nat dist)) else st)"

definition closestSeg :: "video \<Rightarrow> int \<Rightarrow> segment option" where
  "closestSeg v timestamp = fst (fold (closestStep timestamp) (transcriptOf v) (None, \<infinity>))"

text \<open>\<^verbatim>\<open>relevantSegments\<close> after the fallback has pushed the closest segment.\<close>

definition windowSegments :: "video \<Rightarrow> int \<Rightarrow> segment list" where
  "windowSegments v timestamp =
     (let rs = relevantSegments v timestamp
      in if length rs = 0
         then (case closestSeg v timestamp of None \<Rightarrow> rs | Some seg \<Rightarrow> rs @ [seg])
         else rs)"

definition contentLine :: "segment \<Rightarrow> string" where
  "contentLine seg =
     ''['' @ formatTime (start seg) @ ''-'' @ formatTime (end_seg seg) @ ''] '' @ text_seg seg @ [CHR 0x0A]"

definition contentTextOf :: "segment list \<Rightarrow> string" where
  "contentTextOf segs = fold (\<lambda>seg contentText. contentText @ contentLine seg) segs []"

definition noContent :: string where
  "noContent = ''Tidak ada konten di timestamp ini''"

text \<open>
  The arguments of the tool call, the object handed to \<^verbatim>\<open>sendFunctionResult\<close> (a key the
  object does not have is \<open>None\<close>), and the two calls the handler makes to the rest of the
  page, in the order it makes them.
\<close>

record content_args =
  args_timestamp :: "int option"
  args_video_id :: "string option"

record function_result =
  success :: bool
  video_id :: "string option"
  video_title :: "string option"
  timestamp :: "int option"
  content :: "string option"
  segments :: "segment list option"
  message :: string

datatype effect = NavigateToTimestamp int | SendFunctionResult string function_result

definition requestedTimestamp :: "content_args \<Rightarrow> int" where
  "requestedTimestamp args = (case args_timestamp args of None \<Rightarrow> 0 | Some t \<Rightarrow> if t = 0 then 0 else t)"

definition requestedVideoId :: "string option \<Rightarrow> content_args \<Rightarrow> string option" where
  "requestedVideoId currentVideoId args =
     (case args_video_id args of
        None \<Rightarrow> currentVideoId
      | Some i \<Rightarrow> if i = [] then currentVideoId else Some i)"

definition notFoundResult :: function_result where
  "notFoundResult =
     \<lparr>success = False, video_id = None, video_title = None, timestamp = None,
      content = None, segments = None, message = ''Video tidak ditemukan''\<rparr>"

definition contentResult :: "string option \<Rightarrow> video \<Rightarrow> int \<Rightarrow> function_result" where
  "contentResult videoId v ts =
     (let relevant = windowSegments v ts;
          contentText = contentTextOf relevant
      in \<lparr>success = True, video_id = videoId, video_title = title v, timestamp = Some ts,
          content = Some (if contentText = [] then noContent else contentText),
          segments = Some relevant,
          message = ''Konten video di detik '' @ showInt ts @ '': '' @ contentText\<rparr>)"

definition handleGetVideoContent ::
    "video list \<Rightarrow> string option \<Rightarrow> content_args \<Rightarrow> string \<Rightarrow> effect list" where
  "handleGetVideoContent VIDEOS_DATA currentVideoId args callId =
     (let ts = requestedTimestamp args;
          videoId = requestedVideoId currentVideoId args
      in case find (\<lambda>v. id_vid v = videoId) VIDEOS_DATA of
           None \<Rightarrow> [SendFunctionResult callId notFoundResult]
         | Some v \<Rightarrow> [NavigateToTimestamp ts, SendFunctionResult callId (contentResult videoId v ts)])"

section \<open>The scoring rule in the words of the specification\<close>

text \<open>
  The score of a video for a query in the words of the specification: substring and prefix
  are the library's \<^const>\<open>sublist\<close> and \<^const>\<open>prefix\<close>, every topic and keyword is lowercased
  before joining, and the per-word bonuses are summed over the query words.
\<close>

definition specScore :: "string \<Rightarrow> video \<Rightarrow> int" where
  "specScore query v =
     (let q = toLowerCase query;
          topicsT = join '' '' (map toLowerCase (case topics v of None \<Rightarrow> [] | Some ts \<Rightarrow> ts));
          keywordsT = join '' '' (map toLowerCase (case keywords_vid v of None \<Rightarrow> [] | Some ks \<Rightarrow> ks));
          titleT = toLowerCase (case title v of None \<Rightarrow> [] | Some t \<Rightarrow> t);
          allText = topicsT @ '' '' @ keywordsT @ '' '' @ titleT
      in (if sublist q allText then 20 else 0) +
         (\<Sum>w\<leftarrow>filter (\<lambda>w. length w > 1) (split_ws q).
            (if sublist w topicsT then 10 else 0) +
            (if sublist w keywordsT then 8 else 0) +
            (if sublist w titleT then 15 else 0) +
            3 * int (length (filter (\<lambda>tok. prefix w tok \<and> tok \<noteq> w) (split_ws allText)))))"

text \<open>
  For the proofs about the closest-segment loop: the distance as the value that the loop
  compares with \<^verbatim>\<open>minDist\<close>.
\<close>

definition eDist :: "int \<Rightarrow> segment \<Rightarrow> enat" where
  "eDist t seg = enat (nat (boundaryDist t seg))"

section \<open>Example data\<close>

definition segA :: segment where
  "segA = \<lparr>start = 0, end_seg = 10, text_seg = ''a''\<rparr>"

definition segB :: segment where
  "segB = \<lparr>start = 40, end_seg = 50, text_seg = ''b''\<rparr>"

definition newtonVideo :: video where
  "newtonVideo =
     \<lparr>id_vid = Some ''video_001'', title = Some ''Hukum Newton'', topics = Some [''gaya'', ''gerak''],
      keywords_vid = None, transcript = Some [segA, segB]\<rparr>"

definition gerakVideo :: video where
  "gerakVideo =
     \<lparr>id_vid = Some ''video_002'', title = Some ''Gerak Lurus'', topics = Some [''gerak'', ''kecepatan''],
      keywords_vid = Some [''glb'', ''newtonian''], transcript = Some []\<rparr>"

definition strasse :: string where
  "strasse = ''stra'' @ [CHR 0xDF] @ ''e''"

definition strasseVideo :: video where
  "strasseVideo =
     \<lparr>id_vid = Some ''video_004'', title = Some (''Stra'' @ [CHR 0xDF] @ ''e''), topics = None,
      keywords_vid = None, transcript = None\<rparr>"

definition bareVideo :: video where
  "bareVideo =
     \<lparr>id_vid = Some ''video_003'', title = None, topics = None, keywords_vid = None, transcript = None\<rparr>"

section \<open>Strings, scoring and sorting: lemmas\<close>

lemma startsWith_iff_prefix: "startsWith s t \<longleftrightarrow> prefix t s"
  by (induction s t rule: startsWith.induct) auto

lemma includes_iff_sublist: "includes_str s t \<longleftrightarrow> sublist t s"
  by (induction s) (simp_all add: startsWith_iff_prefix sublist_Cons_right)

lemma toLowerChar_idem: "toLowerChar (toLowerChar c) = toLowerChar c"
  by (simp add: toLowerChar_def upperLetters_def lowerLetters_def)

lemma toLowerCase_Nil: "toLowerCase [] = []"
  by (simp add: toLowerCase_def)

lemma toLowerCase_Cons: "toLowerCase (c # s) = toLowerChar c # toLowerCase s"
  by (simp add: toLowerCase_def)

lemma toLowerCase_append: "toLowerCase (s @ t) = toLowerCase s @ toLowerCase t"
  by (simp add: toLowerCase_def)

lemma toLowerChar_space: "toLowerChar (CHR '' '') = CHR '' ''"
  by (simp add: toLowerChar_def upperLetters_def lowerLetters_def)

lemma toLowerCase_join: "toLowerCase (join '' '' xs) = join '' '' (map toLowerCase xs)"
  by (induction "'' ''" xs rule: join.induct)
     (simp_all add: toLowerCase_append toLowerCase_Cons toLowerCase_Nil toLowerChar_space)

lemma toLowerCase_idem: "toLowerCase (toLowerCase q) = toLowerCase q"
  by (simp add: toLowerCase_def toLowerChar_idem)

lemma toLowerCase_eq_Nil: "toLowerCase q = [] \<longleftrightarrow> q = []"
  by (simp add: toLowerCase_def)

lemma isAscii_not_special: "isAscii c \<Longrightarrow> c \<noteq> CHR 0xDF \<and> c \<noteq> CHR 0xB5 \<and> c \<noteq> CHR 0xFF"
  by (auto simp: isAscii_def)

lemma toUpperChar_lower:
  assumes "c \<noteq> CHR 0xDF" "c \<noteq> CHR 0xB5" "c \<noteq> CHR 0xFF"
  shows "\<exists>u. toUpperChar c = Some [u] \<and> toLowerChar u = toLowerChar c"
  using assms
  by (simp add: toUpperChar_def toLowerChar_def upperLetters_def lowerLetters_def)

lemma toUpperCase_ascii:
  assumes "\<forall>c\<in>set q. isAscii c"
  shows "\<exists>u. toUpperCase q = Some u \<and> toLowerCase u = toLowerCase q"
  using assms
proof (induction q)
  case Nil
  show ?case by (simp add: toLowerCase_Nil)
next
  case (Cons c cs)
  from Cons.prems have "isAscii c" by simp
  then obtain u where u: "toUpperChar c = Some [u]" "toLowerChar u = toLowerChar c"
    using isAscii_not_special [of c] toUpperChar_lower [of c] by blast
  from Cons obtain us where us: "toUpperCase cs = Some us" "toLowerCase us = toLowerCase cs"
    by auto
  from u us show ?case
    by (simp add: toLowerCase_Cons)
qed


subsection \<open>Folding the score\<close>

lemma fold_prefixStep:
  "fold (prefixStep word) toks s = s + 3 * int (length (filter (\<lambda>tok. prefix word tok \<and> tok \<noteq> word) toks))"
  by (induction toks arbitrary: s) (simp_all add: prefixStep_def startsWith_iff_prefix)

lemma wordStep_add:
  "wordStep topicsT keywordsT titleT allText word s =
     s + ((if sublist word topicsT then 10 else 0) + (if sublist word keywordsT then 8 else 0)
          + (if sublist word titleT then 15 else 0)
          + 3 * int (length (filter (\<lambda>tok. prefix word tok \<and> tok \<noteq> word) (split_ws allText))))"
  by (simp add: wordStep_def Let_def fold_prefixStep includes_iff_sublist)

lemma fold_add_sum:
  assumes "\<And>w s. f w s = s + g w"
  shows "fold f ws (s::int) = s + sum_list (map g ws)"
  using assms by (induction ws arbitrary: s) simp_all

subsection \<open>The sort\<close>

lemma insertBy_insort: "insertBy byScoreDesc x ys = insort_key (\<lambda>r. - score r) x ys"
  by (induction ys) (simp_all add: byScoreDesc_def)

lemma sortBy_sort_key: "sortBy byScoreDesc xs = sort_key (\<lambda>r. - score r) xs"
  by (induction xs) (simp_all add: sortBy_def insertBy_insort)

lemma mset_sortBy: "mset (sortBy byScoreDesc xs) = mset xs"
  by (simp add: sortBy_sort_key)

lemma sortBy_descending: "sorted_wrt (\<lambda>a b. score a \<ge> score b) (sortBy byScoreDesc xs)"
proof -
  have "sorted (map (\<lambda>r. - score r) (sort_key (\<lambda>r. - score r) xs))"
    by (rule sorted_sort_key)
  then show ?thesis
    by (simp add: sortBy_sort_key sorted_map)
qed

lemma sortBy_stable:
  "filter (\<lambda>r. score r = k) (sortBy byScoreDesc xs) = filter (\<lambda>r. score r = k) xs"
proof -
  have "filter (\<lambda>r. - score r = - k) (sort_key (\<lambda>r. - score r) xs) = filter (\<lambda>r. - score r = - k) xs"
    by (rule sort_key_stable)
  then show ?thesis
    by (simp add: sortBy_sort_key)
qed

subsection \<open>The closest-segment loop\<close>

lemma boundaryDist_nonneg: "0 \<le> boundaryDist t seg"
  by (simp add: boundaryDist_def)

lemma eDist_eq_iff: "eDist t x = eDist t y \<longleftrightarrow> boundaryDist t x = boundaryDist t y"
  using boundaryDist_nonneg [of t x] boundaryDist_nonneg [of t y]
  by (simp add: eDist_def) arith

lemma eDist_le_iff: "eDist t x \<le> eDist t y \<longleftrightarrow> boundaryDist t x \<le> boundaryDist t y"
  using boundaryDist_nonneg [of t x] boundaryDist_nonneg [of t y]
  by (simp add: eDist_def) arith

lemma closestStep_eDist:
  "closestStep t seg st = (if eDist t seg < snd st then (Some seg, eDist t seg) else st)"
  by (simp add: closestStep_def eDist_def Let_def)

lemma ball_Cons_dominated:
  fixes f :: "'a \<Rightarrow> enat"
  assumes "z \<in> set ys" "f z < f y"
  shows "(\<forall>w\<in>set (y # ys). f x \<le> f w) = (\<forall>w\<in>set ys. f x \<le> f w)"
proof
  assume "\<forall>w\<in>set (y # ys). f x \<le> f w"
  then show "\<forall>w\<in>set ys. f x \<le> f w" by simp
next
  assume a: "\<forall>w\<in>set ys. f x \<le> f w"
  then have "f x \<le> f z" using assms(1) by blast
  then have "f x \<le> f y" using assms(2) by (meson less_imp_le order.trans)
  with a show "\<forall>w\<in>set (y # ys). f x \<le> f w" by simp
qed

text \<open>
  The loop from any state: nothing changes when no segment is closer than \<open>m\<close>; otherwise
  it ends on the first segment that no other segment beats, with the least distance.
\<close>

lemma fold_closestStep:
  "fold (closestStep t) xs (c, m) =
     (if \<forall>x\<in>set xs. m \<le> eDist t x then (c, m)
      else (find (\<lambda>x. \<forall>y\<in>set xs. eDist t x \<le> eDist t y) xs,
            Min (eDist t ` set xs)))"
proof (induction xs arbitrary: c m)
  case Nil
  show ?case by simp
next
  case (Cons y ys)
  show ?case
  proof (cases "eDist t y < m")
    case True
    show ?thesis
    proof (cases "\<forall>x\<in>set ys. eDist t y \<le> eDist t x")
      case allge: True
      have "Min (eDist t ` set (y # ys)) = eDist t y"
        using allge by (auto intro!: Min_eqI)
      have step: "closestStep t y (c, m) = (Some y, eDist t y)"
        using True by (simp add: closestStep_eDist)
      have "\<not> (\<forall>x\<in>set (y # ys). m \<le> eDist t x)" using True by (auto simp: not_le)
      moreover have "find (\<lambda>x. \<forall>w\<in>set (y # ys). eDist t x \<le> eDist t w) (y # ys) = Some y"
        using allge by simp
      moreover have "fold (closestStep t) (y # ys) (c, m) = (Some y, eDist t y)"
        using allge by (simp add: step Cons.IH)
      ultimately show ?thesis
        using \<open>Min (eDist t ` set (y # ys)) = eDist t y\<close>
        by (simp only: if_False)
    next
      case False
      then obtain z where z: "z \<in> set ys" "eDist t z < eDist t y"
        by (auto simp: not_le)
      have ne: "set ys \<noteq> {}" using z by auto
      have min_eq: "Min (eDist t ` set (y # ys)) = Min (eDist t ` set ys)"
      proof -
        have "Min (eDist t ` set ys) \<le> eDist t z" using z by simp
        then have "Min (eDist t ` set ys) \<le> eDist t y"
          using z(2) by (meson less_imp_le order.trans)
        then show ?thesis using ne by (simp add: min_absorb2)
      qed
      have find_eq: "find (\<lambda>x. \<forall>w\<in>set (y # ys). eDist t x \<le> eDist t w) (y # ys) =
            find (\<lambda>x. \<forall>w\<in>set ys. eDist t x \<le> eDist t w) ys"
      proof -
        have "\<not> (\<forall>w\<in>set (y # ys). eDist t y \<le> eDist t w)" using z by (auto simp: not_le)
        moreover have "find (\<lambda>x. \<forall>w\<in>set (y # ys). eDist t x \<le> eDist t w) ys =
            find (\<lambda>x. \<forall>w\<in>set ys. eDist t x \<le> eDist t w) ys"
        proof (rule find_cong)
          fix x assume "x \<in> set ys"
          show "(\<forall>w\<in>set (y # ys). eDist t x \<le> eDist t w) = (\<forall>w\<in>set ys. eDist t x \<le> eDist t w)"
            using z by (rule ball_Cons_dominated)
        qed simp
        ultimately show ?thesis by (simp; blast)
      qed
      have step: "closestStep t y (c, m) = (Some y, eDist t y)"
        using True by (simp add: closestStep_eDist)
      have nall: "\<not> (\<forall>x\<in>set (y # ys). m \<le> eDist t x)" using True by (auto simp: not_le)
      have "fold (closestStep t) (y # ys) (c, m) = fold (closestStep t) ys (Some y, eDist t y)"
        by (simp add: step)
      also have "\<dots> = (find (\<lambda>x. \<forall>w\<in>set ys. eDist t x \<le> eDist t w) ys, Min (eDist t ` set ys))"
        using False by (simp only: Cons.IH if_False)
      also have "\<dots> = (find (\<lambda>x. \<forall>w\<in>set (y # ys). eDist t x \<le> eDist t w) (y # ys),
                        Min (eDist t ` set (y # ys)))"
        by (simp only: min_eq find_eq)
      finally show ?thesis
        using nall by (simp only: if_False)
    qed
  next
    case nless: False
    then have mle: "m \<le> eDist t y" by simp
    show ?thesis
    proof (cases "\<forall>x\<in>set ys. m \<le> eDist t x")
      case True
      have step: "closestStep t y (c, m) = (c, m)"
        using nless by (simp add: closestStep_eDist)
      from True mle show ?thesis
        by (simp add: step Cons.IH)
    next
      case False
      then obtain z where z: "z \<in> set ys" "eDist t z < m"
        by (auto simp: not_le)
      have ne: "set ys \<noteq> {}" using z by auto
      have zy: "eDist t z < eDist t y" using z mle by simp
      have min_eq: "Min (eDist t ` set (y # ys)) = Min (eDist t ` set ys)"
      proof -
        have "Min (eDist t ` set ys) \<le> eDist t z" using z by simp
        then have "Min (eDist t ` set ys) \<le> eDist t y"
          using zy by (meson less_imp_le order.trans)
        then show ?thesis using ne by (simp add: min_absorb2)
      qed
      have find_eq: "find (\<lambda>x. \<forall>w\<in>set (y # ys). eDist t x \<le> eDist t w) (y # ys) =
            find (\<lambda>x. \<forall>w\<in>set ys. eDist t x \<le> eDist t w) ys"
      proof -
        have "\<not> (\<forall>w\<in>set (y # ys). eDist t y \<le> eDist t w)" using z zy by (auto simp: not_le)
        moreover have "find (\<lambda>x. \<forall>w\<in>set (y # ys). eDist t x \<le> eDist t w) ys =
            find (\<lambda>x. \<forall>w\<in>set ys. eDist t x \<le> eDist t w) ys"
        proof (rule find_cong)
          fix x assume "x \<in> set ys"
          show "(\<forall>w\<in>set (y # ys). eDist t x \<le> eDist t w) = (\<forall>w\<in>set ys. eDist t x \<le> eDist t w)"
            using z(1) zy by (rule ball_Cons_dominated)
        qed simp
        ultimately show ?thesis by (simp; blast)
      qed
      have step: "closestStep t y (c, m) = (c, m)"
        using nless by (simp add: closestStep_eDist)
      have nall: "\<not> (\<forall>x\<in>set (y # ys). m \<le> eDist t x)" using False by auto
      have "fold (closestStep t) (y # ys) (c, m) = fold (closestStep t) ys (c, m)"
        by (simp add: step)
      also have "\<dots> = (find (\<lambda>x. \<forall>w\<in>set ys. eDist t x \<le> eDist t w) ys, Min (eDist t ` set ys))"
        using False by (simp only: Cons.IH if_False)
      also have "\<dots> = (find (\<lambda>x. \<forall>w\<in>set (y # ys). eDist t x \<le> eDist t w) (y # ys),
                        Min (eDist t ` set (y # ys)))"
        by (simp only: min_eq find_eq)
      finally show ?thesis
        using nall by (simp only: if_False)
    qed
  qed
qed

section \<open>Relevance search: the claims\<close>

lemma scoreVideo_sum:
  "scoreVideo q ws v =
     (if sublist q (allTextOf v) then 20 else 0) +
     (\<Sum>w\<leftarrow>ws.
        (if sublist w (topicsText v) then 10 else 0) +
        (if sublist w (keywordsText v) then 8 else 0) +
        (if sublist w (titleText v) then 15 else 0) +
        3 * int (length (filter (\<lambda>tok. prefix w tok \<and> tok \<noteq> w) (split_ws (allTextOf v)))))"
  unfolding scoreVideo_def Let_def includes_iff_sublist
  by (rule fold_add_sum) (rule wordStep_add)

lemma scoreVideo_specScore:
  "scoreVideo (toLowerCase query) (queryWordsOf (toLowerCase query)) v = specScore query v"
  by (simp add: scoreVideo_sum specScore_def Let_def queryWordsOf_def allTextOf_def
      topicsText_def keywordsText_def titleText_def toLowerCase_join)

lemma scored_specScore:
  "scored VIDEOS_DATA query = map (\<lambda>v. \<lparr>video = v, score = specScore query v\<rparr>) VIDEOS_DATA"
  by (simp add: scored_def Let_def scoreVideo_specScore)

lemma set_sortBy: "set (sortBy byScoreDesc xs) = set xs"
  using mset_sortBy [of xs] by (rule mset_eq_setD)

lemma search_nonempty_query:
  assumes "query \<noteq> []"
  shows "searchByTopics VIDEOS_DATA query =
           sortBy byScoreDesc (filter (\<lambda>r. score r > 0) (scored VIDEOS_DATA query))"
  using assms by (cases VIDEOS_DATA) (simp_all add: searchByTopics_def scored_def sortBy_def)

lemma queryWordsOf_short:
  assumes "\<forall>tok\<in>set (split_ws queryLower). length tok \<le> 1"
  shows "queryWordsOf queryLower = []"
proof -
  have "\<forall>w\<in>set (split_ws queryLower). \<not> length w > 1"
    using assms by (auto simp: not_less)
  then show ?thesis
    by (simp add: queryWordsOf_def filter_empty_conv)
qed

text \<open>
  C1, as the script has it: the search with the empty query returns the empty sequence for
  every catalog, and the search over the empty catalog returns the empty sequence for every
  query. (The guard is \<^verbatim>\<open>!query\<close>; a query of whitespace is not caught by it.)
\<close>

theorem search_empty_inputs:
  "searchByTopics VIDEOS_DATA [] = [] \<and> searchByTopics [] query = []"
  by (simp add: searchByTopics_def)

theorem search_empty_inputs_witness:
  "searchByTopics [newtonVideo, gerakVideo] [] = [] \<and> searchByTopics [] ''newton'' = []"
  using search_empty_inputs [of "[newtonVideo, gerakVideo]" "''newton''"] by simp

text \<open>
  A query of one space is scanned like any other query: every \<^verbatim>\<open>allText\<close> holds a space, so
  the video is returned with the full-query bonus of 20.
\<close>

theorem search_blank_query:
  "isSpace (CHR '' '') \<and>
   searchByTopics [newtonVideo] '' '' = [\<lparr>video = newtonVideo, score = 20\<rparr>]"
  by code_simp

text \<open>
  C2: the score the script computes for a video and a query is the score of the scoring
  rule: 20 if the lowercased query is a substring of \<^verbatim>\<open>allText\<close>, plus, for every token of the
  lowercased query of length above 1, 10, 8 and 15 for being a substring of the topics, the
  keywords and the title text, and 3 for every token of \<^verbatim>\<open>allText\<close> that it is a proper prefix
  of. The array \<^verbatim>\<open>scored\<close> pairs every catalog video with that score, and every returned
  result carries the score of its video.
\<close>

theorem score_formula:
  "scoreVideo (toLowerCase query) (queryWordsOf (toLowerCase query)) v = specScore query v \<and>
   scored VIDEOS_DATA query = map (\<lambda>v. \<lparr>video = v, score = specScore query v\<rparr>) VIDEOS_DATA \<and>
   (\<forall>r\<in>set (searchByTopics VIDEOS_DATA query). score r = specScore query (video r))"
proof -
  have "score r = specScore query (video r)" if "r \<in> set (searchByTopics VIDEOS_DATA query)" for r
  proof -
    from that have "r \<in> set (scored VIDEOS_DATA query)"
      by (auto simp: searchByTopics_def set_sortBy split: if_splits)
    then show ?thesis
      by (auto simp: scored_specScore)
  qed
  then show ?thesis
    by (simp add: scoreVideo_specScore scored_specScore)
qed

theorem score_formula_witness:
  "specScore ''Newton'' gerakVideo = 31 \<and>
   searchByTopics [gerakVideo] ''Newton'' = [\<lparr>video = gerakVideo, score = 31\<rparr>] \<and>
   score \<lparr>video = gerakVideo, score = 31\<rparr> = specScore ''Newton'' (video \<lparr>video = gerakVideo, score = 31\<rparr>)"
proof -
  have c: "searchByTopics [gerakVideo] ''Newton'' = [\<lparr>video = gerakVideo, score = 31\<rparr>]"
    by code_simp
  from score_formula [of "''Newton''" gerakVideo "[gerakVideo]"]
  have "\<forall>r\<in>set (searchByTopics [gerakVideo] ''Newton''). score r = specScore ''Newton'' (video r)"
    by blast
  with c have "score \<lparr>video = gerakVideo, score = 31\<rparr> =
      specScore ''Newton'' (video \<lparr>video = gerakVideo, score = 31\<rparr>)"
    by simp
  with c show ?thesis by simp
qed

text \<open>
  C3: the result is a rearrangement of the entries of positive score among the scores the
  call computes, that is the array \<^verbatim>\<open>scored\<close>, which holds the catalog videos in catalog
  order, each with its score; after the early return for the empty query no score has been
  computed. Every returned score is at least 1, the scores descend, and the entries of any
  one score keep their catalog order.
\<close>

theorem search_ranked:
  "mset (searchByTopics VIDEOS_DATA query) =
     mset (filter (\<lambda>r. score r > 0) (if query = [] then [] else scored VIDEOS_DATA query)) \<and>
   map video (scored VIDEOS_DATA query) = VIDEOS_DATA \<and>
   (\<forall>r\<in>set (searchByTopics VIDEOS_DATA query). score r \<ge> 1) \<and>
   sorted_wrt (\<lambda>a b. score a \<ge> score b) (searchByTopics VIDEOS_DATA query) \<and>
   (\<forall>k. filter (\<lambda>r. score r = k) (searchByTopics VIDEOS_DATA query) =
         filter (\<lambda>r. score r = k)
           (filter (\<lambda>r. score r > 0) (if query = [] then [] else scored VIDEOS_DATA query)))"
proof -
  let ?sc = "if query = [] then [] else scored VIDEOS_DATA query"
  have eq: "searchByTopics VIDEOS_DATA query = sortBy byScoreDesc (filter (\<lambda>r. score r > 0) ?sc)"
    by (cases VIDEOS_DATA) (simp_all add: searchByTopics_def scored_def sortBy_def)
  have "mset (searchByTopics VIDEOS_DATA query) = mset (filter (\<lambda>r. score r > 0) ?sc)"
    by (simp only: eq mset_sortBy)
  moreover have "map video (scored VIDEOS_DATA query) = VIDEOS_DATA"
    by (simp add: scored_def Let_def comp_def)
  moreover have "\<forall>r\<in>set (searchByTopics VIDEOS_DATA query). score r \<ge> 1"
  proof
    fix r assume "r \<in> set (searchByTopics VIDEOS_DATA query)"
    then have "r \<in> set (filter (\<lambda>r. score r > 0) ?sc)"
      by (simp only: eq set_sortBy)
    then show "score r \<ge> 1" by auto
  qed
  moreover have "sorted_wrt (\<lambda>a b. score a \<ge> score b) (searchByTopics VIDEOS_DATA query)"
    by (simp only: eq sortBy_descending)
  moreover have "\<forall>k. filter (\<lambda>r. score r = k) (searchByTopics VIDEOS_DATA query) =
               filter (\<lambda>r. score r = k) (filter (\<lambda>r. score r > 0) ?sc)"
    by (simp only: eq sortBy_stable) simp
  ultimately show ?thesis by blast
qed

theorem search_ranked_witness:
  "searchByTopics [newtonVideo, gerakVideo, bareVideo] ''ge'' =
     [\<lparr>video = gerakVideo, score = 51\<rparr>, \<lparr>video = newtonVideo, score = 33\<rparr>] \<and>
   scored [newtonVideo, gerakVideo, bareVideo] ''ge'' =
     [\<lparr>video = newtonVideo, score = 33\<rparr>, \<lparr>video = gerakVideo, score = 51\<rparr>,
      \<lparr>video = bareVideo, score = 0\<rparr>] \<and>
   sorted_wrt (\<lambda>a b. score a \<ge> score b) (searchByTopics [newtonVideo, gerakVideo, bareVideo] ''ge'') \<and>
   score \<lparr>video = gerakVideo, score = 51\<rparr> \<ge> 1 \<and> score \<lparr>video = newtonVideo, score = 33\<rparr> \<ge> 1"
proof -
  let ?cat = "[newtonVideo, gerakVideo, bareVideo]"
  have c: "searchByTopics ?cat ''ge'' =
     [\<lparr>video = gerakVideo, score = 51\<rparr>, \<lparr>video = newtonVideo, score = 33\<rparr>]"
    by code_simp
  have d: "scored ?cat ''ge'' =
     [\<lparr>video = newtonVideo, score = 33\<rparr>, \<lparr>video = gerakVideo, score = 51\<rparr>,
      \<lparr>video = bareVideo, score = 0\<rparr>]"
    by code_simp
  from search_ranked [of ?cat "''ge''"]
  have s: "sorted_wrt (\<lambda>a b. score a \<ge> score b) (searchByTopics ?cat ''ge'')"
    and b: "\<forall>r\<in>set (searchByTopics ?cat ''ge''). score r \<ge> 1"
    by blast+
  from b c have "score \<lparr>video = gerakVideo, score = 51\<rparr> \<ge> 1 \<and> score \<lparr>video = newtonVideo, score = 33\<rparr> \<ge> 1"
    by simp
  with c d s show ?thesis by blast
qed

text \<open>
  C8, for the queries whose upper-cased form lower-cases to the lower-cased query: the
  search with the upper-cased query returns the same sequence (the same videos, scores and
  order) as the search with the lower-cased query. Every query of ASCII characters is such a
  query.
\<close>

theorem search_case_insensitive:
  "(toUpperCase q = Some u \<and> toLowerCase u = toLowerCase q \<longrightarrow>
      searchByTopics VIDEOS_DATA u = searchByTopics VIDEOS_DATA (toLowerCase q)) \<and>
   ((\<forall>c\<in>set q. isAscii c) \<longrightarrow>
      (\<exists>u'. toUpperCase q = Some u' \<and> toLowerCase u' = toLowerCase q))"
proof -
  have "searchByTopics VIDEOS_DATA u = searchByTopics VIDEOS_DATA (toLowerCase q)"
    if low: "toLowerCase u = toLowerCase q"
  proof -
    have "(u = []) = (toLowerCase q = [])"
      using low by (metis toLowerCase_eq_Nil)
    then show ?thesis
      by (simp add: searchByTopics_def scored_def low toLowerCase_idem)
  qed
  then show ?thesis
    using toUpperCase_ascii [of q] by blast
qed

theorem search_case_insensitive_witness:
  "list_all isAscii ''Newton'' \<and>
   toUpperCase ''Newton'' = Some ''NEWTON'' \<and> toLowerCase ''NEWTON'' = toLowerCase ''Newton'' \<and>
   searchByTopics [newtonVideo, gerakVideo, bareVideo] ''NEWTON'' =
   searchByTopics [newtonVideo, gerakVideo, bareVideo] (toLowerCase ''Newton'')"
proof -
  have a: "list_all isAscii ''Newton''" by code_simp
  have u: "toUpperCase ''Newton'' = Some ''NEWTON''" by code_simp
  have l: "toLowerCase ''NEWTON'' = toLowerCase ''Newton''" by code_simp
  from search_case_insensitive [of "''Newton''" "''NEWTON''" "[newtonVideo, gerakVideo, bareVideo]"] u l
  have "searchByTopics [newtonVideo, gerakVideo, bareVideo] ''NEWTON'' =
        searchByTopics [newtonVideo, gerakVideo, bareVideo] (toLowerCase ''Newton'')"
    by blast
  with a u l show ?thesis by blast
qed

text \<open>
  The query \<^verbatim>\<open>stra\<close>, sharp s, \<^verbatim>\<open>e\<close> upper-cases to \<^verbatim>\<open>STRASSE\<close>, which finds nothing in a
  catalog whose one video is titled with that word, while the lower-cased query finds the
  video with score 35.
\<close>

theorem search_sharp_s_differs:
  "toUpperCase strasse = Some ''STRASSE'' \<and>
   searchByTopics [strasseVideo] ''STRASSE'' = [] \<and>
   searchByTopics [strasseVideo] (toLowerCase strasse) = [\<lparr>video = strasseVideo, score = 35\<rparr>]"
  by code_simp

text \<open>
  C10: when every token of the query, as the script splits it (the whitespace-delimited
  tokens of the lowercased query), has length at most 1, no query word is left, and the
  score of a video is 20 if its \<^verbatim>\<open>allText\<close> contains the lowercased query and 0 otherwise. Such
  a query can return a result: the query \<^verbatim>\<open>N\<close> finds the video titled Hukum Newton with
  score 20.
\<close>

theorem short_tokens_score:
  "((\<forall>tok\<in>set (split_ws (toLowerCase query)). length tok \<le> 1) \<longrightarrow>
      queryWordsOf (toLowerCase query) = [] \<and>
      scoreVideo (toLowerCase query) (queryWordsOf (toLowerCase query)) v =
        (if sublist (toLowerCase query) (allTextOf v) then 20 else 0)) \<and>
   searchByTopics [newtonVideo, bareVideo] ''N'' = [\<lparr>video = newtonVideo, score = 20\<rparr>]"
proof -
  have "searchByTopics [newtonVideo, bareVideo] ''N'' = [\<lparr>video = newtonVideo, score = 20\<rparr>]"
    by code_simp
  then show ?thesis
    by (simp add: queryWordsOf_short scoreVideo_sum)
qed

theorem short_tokens_score_witness:
  "split_ws (toLowerCase ''N'') = [''n''] \<and> \<not> isSpace (CHR ''N'') \<and>
   scoreVideo (toLowerCase ''N'') (queryWordsOf (toLowerCase ''N'')) newtonVideo = 20 \<and>
   scoreVideo (toLowerCase ''N'') (queryWordsOf (toLowerCase ''N'')) bareVideo = 0"
proof -
  have sp: "split_ws (toLowerCase ''N'') = [''n'']" by code_simp
  then have h: "\<forall>tok\<in>set (split_ws (toLowerCase ''N'')). length tok \<le> 1" by simp
  have n: "\<not> isSpace (CHR ''N'')" by code_simp
  have s: "sublist (toLowerCase ''N'') (allTextOf newtonVideo)" by code_simp
  have t: "\<not> sublist (toLowerCase ''N'') (allTextOf bareVideo)" by code_simp
  from short_tokens_score [of "''N''" newtonVideo] h
  have "scoreVideo (toLowerCase ''N'') (queryWordsOf (toLowerCase ''N'')) newtonVideo =
          (if sublist (toLowerCase ''N'') (allTextOf newtonVideo) then 20 else 0)"
    by blast
  with s have a: "scoreVideo (toLowerCase ''N'') (queryWordsOf (toLowerCase ''N'')) newtonVideo = 20"
    by (simp only: if_True)
  from short_tokens_score [of "''N''" bareVideo] h
  have "scoreVideo (toLowerCase ''N'') (queryWordsOf (toLowerCase ''N'')) bareVideo =
          (if sublist (toLowerCase ''N'') (allTextOf bareVideo) then 20 else 0)"
    by blast
  with t have b: "scoreVideo (toLowerCase ''N'') (queryWordsOf (toLowerCase ''N'')) bareVideo = 0"
    by (simp only: if_False)
  from sp n a b show ?thesis by blast
qed

section \<open>Relevance search on the store: the claim\<close>

lemma searchByTopics_store_run:
  assumes "lookup h VIDEOS_DATA = Some (VideoArray vs)"
  shows "\<exists>r h'. searchByTopics_store VIDEOS_DATA q h = (r, h') \<and>
           length h \<le> length h' \<and>
           (\<forall>a<length h. lookup h' a = lookup h a) \<and>
           lookup h' r = Some (ScoredArray (searchByTopics vs q))"
proof (cases "q = [] \<or> vs = []")
  case True
  then show ?thesis
    using assms
    by (auto simp: searchByTopics_store_def searchByTopics_def alloc_def lookup_def nth_append)
next
  case False
  let ?h1 = "h @ [ScoredArray (scored vs q)]"
  let ?h2 = "?h1 @ [ScoredArray (filter (\<lambda>v. score v > 0) (scored vs q))]"
  let ?r2 = "Suc (length h)"
  let ?h3 = "?h2[?r2 := ScoredArray (sortBy byScoreDesc (filter (\<lambda>v. score v > 0) (scored vs q)))]"
  have m: "map_scored q VIDEOS_DATA h = (length h, ?h1)"
    using assms by (simp add: map_scored_def alloc_def)
  have f: "filter_positive (length h) ?h1 = (?r2, ?h2)"
    by (simp add: filter_positive_def alloc_def lookup_def)
  have s: "sort_in_place ?r2 ?h2 = (?r2, ?h3)"
    by (simp add: sort_in_place_def lookup_def nth_append)
  have run: "searchByTopics_store VIDEOS_DATA q h = (?r2, ?h3)"
    using assms False f s by (simp add: searchByTopics_store_def m)
  have res: "lookup ?h3 ?r2 = Some (ScoredArray (searchByTopics vs q))"
    using False by (simp add: lookup_def searchByTopics_def)
  have old: "\<forall>a<length h. lookup ?h3 a = lookup h a"
    by (simp add: lookup_def nth_append)
  have len: "length h \<le> length ?h3" by simp
  from run res old len show ?thesis by blast
qed

text \<open>
  C9: with the catalog at address \<^verbatim>\<open>VIDEOS_DATA\<close>, two searches in a row with the same query
  return arrays of the same content, the result of the search; the first call and the second
  leave every array that existed before them as it was, the catalog among them.
\<close>

theorem search_idempotent:
  assumes "lookup h VIDEOS_DATA = Some (VideoArray vs)"
  shows "\<exists>r1 h1 r2 h2.
           searchByTopics_store VIDEOS_DATA q h = (r1, h1) \<and>
           searchByTopics_store VIDEOS_DATA q h1 = (r2, h2) \<and>
           lookup h1 r1 = Some (ScoredArray (searchByTopics vs q)) \<and>
           lookup h2 r2 = lookup h1 r1 \<and>
           (\<forall>a<length h. lookup h1 a = lookup h a \<and> lookup h2 a = lookup h a) \<and>
           lookup h1 VIDEOS_DATA = Some (VideoArray vs) \<and>
           lookup h2 VIDEOS_DATA = Some (VideoArray vs)"
proof -
  from searchByTopics_store_run [OF assms, of q]
  obtain r1 h1 where 1: "searchByTopics_store VIDEOS_DATA q h = (r1, h1)" "length h \<le> length h1"
    "\<forall>a<length h. lookup h1 a = lookup h a" "lookup h1 r1 = Some (ScoredArray (searchByTopics vs q))"
    by blast
  have vd: "VIDEOS_DATA < length h"
    using assms by (simp add: lookup_def split: if_splits)
  then have cat1: "lookup h1 VIDEOS_DATA = Some (VideoArray vs)"
    using 1(3) assms by simp
  from searchByTopics_store_run [OF cat1, of q]
  obtain r2 h2 where 2: "searchByTopics_store VIDEOS_DATA q h1 = (r2, h2)"
    "\<forall>a<length h1. lookup h2 a = lookup h1 a" "lookup h2 r2 = Some (ScoredArray (searchByTopics vs q))"
    by blast
  have old2: "\<forall>a<length h. lookup h2 a = lookup h a"
    using 1(2) 1(3) 2(2) by auto
  then have cat2: "lookup h2 VIDEOS_DATA = Some (VideoArray vs)"
    using vd assms by simp
  from 1 2 old2 cat1 cat2 show ?thesis by auto
qed

theorem search_idempotent_witness:
  "lookup [VideoArray [newtonVideo, gerakVideo, bareVideo]] 0 = Some (VideoArray [newtonVideo, gerakVideo, bareVideo]) \<and>
   (\<exists>r1 h1 r2 h2.
      searchByTopics_store 0 ''ge'' [VideoArray [newtonVideo, gerakVideo, bareVideo]] = (r1, h1) \<and>
      searchByTopics_store 0 ''ge'' h1 = (r2, h2) \<and>
      lookup h2 r2 = lookup h1 r1 \<and>
      lookup h2 0 = Some (VideoArray [newtonVideo, gerakVideo, bareVideo]))"
proof -
  have h: "lookup [VideoArray [newtonVideo, gerakVideo, bareVideo]] 0 =
             Some (VideoArray [newtonVideo, gerakVideo, bareVideo])"
    by (simp add: lookup_def)
  from search_idempotent [OF h, of "''ge''"] h show ?thesis by blast
qed

section \<open>Transcript window: the claims\<close>

lemma closestSeg_find:
  assumes "transcriptOf v \<noteq> []"
  shows "closestSeg v t =
           find (\<lambda>x. \<forall>y\<in>set (transcriptOf v). boundaryDist t x \<le> boundaryDist t y) (transcriptOf v)"
proof -
  obtain x where "x \<in> set (transcriptOf v)"
    using assms by (cases "transcriptOf v") auto
  then have fin: "\<not> (\<forall>x\<in>set (transcriptOf v). \<infinity> \<le> eDist t x)"
    by (auto simp: eDist_def)
  have "fold (closestStep t) (transcriptOf v) (None, \<infinity>) =
          (find (\<lambda>x. \<forall>y\<in>set (transcriptOf v). eDist t x \<le> eDist t y) (transcriptOf v),
           Min (eDist t ` set (transcriptOf v)))"
    using fin by (simp only: fold_closestStep if_False)
  then show ?thesis
    by (simp add: closestSeg_def eDist_le_iff)
qed

lemma closest_exists:
  assumes "xs \<noteq> []"
  shows "\<exists>s. find (\<lambda>x. \<forall>y\<in>set xs. boundaryDist t x \<le> boundaryDist t y) xs = Some s"
proof -
  have "finite (boundaryDist t ` set xs)" "boundaryDist t ` set xs \<noteq> {}"
    using assms by auto
  then have "Min (boundaryDist t ` set xs) \<in> boundaryDist t ` set xs"
    by (rule Min_in)
  then obtain m where m: "m \<in> set xs" "boundaryDist t m = Min (boundaryDist t ` set xs)"
    by auto
  have "\<forall>y\<in>set xs. boundaryDist t m \<le> boundaryDist t y"
    using m by simp
  with m(1) have "find (\<lambda>x. \<forall>y\<in>set xs. boundaryDist t x \<le> boundaryDist t y) xs \<noteq> None"
    by (auto simp: find_None_iff)
  then show ?thesis by auto
qed

text \<open>
  C4: the segments the window selects are exactly the segments of the transcript, in
  transcript order, whose start lies in \<open>[max 0 (t - 10), t + 10]\<close>, or whose end lies there, or
  that span that range; when there is such a segment these are the segments of the result.
  For the transcript of segment a (0 to 10) and segment b (40 to 50) and \<open>t = 45\<close> the
  result holds the one segment b and the text \<^verbatim>\<open>[0:40-0:50] b\<close> with a line feed.
\<close>

theorem window_selection:
  "relevantSegments v t =
     filter (\<lambda>seg. start seg \<in> {max 0 (t - 10) .. t + 10} \<or>
                   end_seg seg \<in> {max 0 (t - 10) .. t + 10} \<or>
                   (start seg \<le> max 0 (t - 10) \<and> end_seg seg \<ge> t + 10))
       (transcriptOf v) \<and>
   (relevantSegments v t \<noteq> [] \<longrightarrow> windowSegments v t = relevantSegments v t) \<and>
   segments (contentResult videoId newtonVideo 45) = Some [segB] \<and>
   content (contentResult videoId newtonVideo 45) = Some (''[0:40-0:50] b'' @ [CHR 0x0A])"
proof -
  have "relevantSegments v t =
     filter (\<lambda>seg. start seg \<in> {max 0 (t - 10) .. t + 10} \<or>
                   end_seg seg \<in> {max 0 (t - 10) .. t + 10} \<or>
                   (start seg \<le> max 0 (t - 10) \<and> end_seg seg \<ge> t + 10))
       (transcriptOf v)"
    by (simp add: relevantSegments_def Let_def)
  moreover have "relevantSegments v t \<noteq> [] \<longrightarrow> windowSegments v t = relevantSegments v t"
    by (simp add: windowSegments_def Let_def)
  moreover have "segments (contentResult videoId newtonVideo 45) = Some [segB]"
    by code_simp
  moreover have "content (contentResult videoId newtonVideo 45) = Some (''[0:40-0:50] b'' @ [CHR 0x0A])"
    by code_simp
  ultimately show ?thesis by blast
qed

theorem window_selection_witness:
  "relevantSegments newtonVideo 45 = [segB] \<and> relevantSegments newtonVideo 45 \<noteq> [] \<and>
   windowSegments newtonVideo 45 = [segB]"
proof -
  have c: "relevantSegments newtonVideo 45 = [segB]" by code_simp
  then have h: "relevantSegments newtonVideo 45 \<noteq> []" by simp
  from window_selection [of newtonVideo 45] h have "windowSegments newtonVideo 45 = relevantSegments newtonVideo 45"
    by blast
  with c h show ?thesis by simp
qed

text \<open>
  C5: when the transcript is not empty and the window selects no segment, the result is one
  segment: the first segment in transcript order whose distance
  \<open>min \<bar>start - t\<bar> \<bar>end - t\<bar>\<close> no segment of the transcript undercuts. For the
  transcript of segments a (0 to 10) and b (40 to 50) and \<open>t = 1000\<close> the distances are 990
  and 950 and the result is segment b; for \<open>t = 28\<close> they are 18 (from the end of a) and 12
  (from the start of b) and the result is segment b.
\<close>

theorem window_fallback:
  "(transcript v = Some tr \<and> tr \<noteq> [] \<and> relevantSegments v t = [] \<longrightarrow>
      (\<exists>s. windowSegments v t = [s] \<and>
           find (\<lambda>x. \<forall>y\<in>set tr. min \<bar>start x - t\<bar> \<bar>end_seg x - t\<bar> \<le> min \<bar>start y - t\<bar> \<bar>end_seg y - t\<bar>) tr =
             Some s)) \<and>
   transcript newtonVideo = Some [segA, segB] \<and>
   min \<bar>start segA - 1000\<bar> \<bar>end_seg segA - 1000\<bar> = 990 \<and>
   min \<bar>start segB - 1000\<bar> \<bar>end_seg segB - 1000\<bar> = 950 \<and>
   windowSegments newtonVideo 1000 = [segB] \<and>
   min \<bar>start segA - 28\<bar> \<bar>end_seg segA - 28\<bar> = 18 \<and>
   min \<bar>start segB - 28\<bar> \<bar>end_seg segB - 28\<bar> = 12 \<and>
   windowSegments newtonVideo 28 = [segB]"
proof -
  have "\<exists>s. windowSegments v t = [s] \<and>
           find (\<lambda>x. \<forall>y\<in>set tr. min \<bar>start x - t\<bar> \<bar>end_seg x - t\<bar> \<le> min \<bar>start y - t\<bar> \<bar>end_seg y - t\<bar>) tr =
             Some s"
    if tr: "transcript v = Some tr" and ne: "tr \<noteq> []" and rel: "relevantSegments v t = []"
  proof -
    have tof: "transcriptOf v = tr"
      using tr by (simp add: transcriptOf_def)
    then have ne': "transcriptOf v \<noteq> []" using ne by simp
    obtain s where s: "find (\<lambda>x. \<forall>y\<in>set (transcriptOf v). boundaryDist t x \<le> boundaryDist t y) (transcriptOf v) = Some s"
      using closest_exists [OF ne'] by blast
    then have "closestSeg v t = Some s"
      by (simp add: closestSeg_find [OF ne'])
    then have "windowSegments v t = [s]"
      by (simp add: windowSegments_def rel)
    with s tof show ?thesis
      by (simp add: boundaryDist_def)
  qed
  moreover have "transcript newtonVideo = Some [segA, segB]"
    by (simp add: newtonVideo_def)
  moreover have "min \<bar>start segA - 1000\<bar> \<bar>end_seg segA - 1000\<bar> = 990"
    "min \<bar>start segB - 1000\<bar> \<bar>end_seg segB - 1000\<bar> = 950"
    "min \<bar>start segA - 28\<bar> \<bar>end_seg segA - 28\<bar> = 18"
    "min \<bar>start segB - 28\<bar> \<bar>end_seg segB - 28\<bar> = 12"
    by (simp_all add: segA_def segB_def)
  moreover have "windowSegments newtonVideo 1000 = [segB]"
    by code_simp
  moreover have "windowSegments newtonVideo 28 = [segB]"
    by code_simp
  ultimately show ?thesis by blast
qed

theorem window_fallback_witness:
  "transcript newtonVideo = Some [segA, segB] \<and> [segA, segB] \<noteq> [] \<and>
   relevantSegments newtonVideo 28 = [] \<and>
   windowSegments newtonVideo 28 = [segB] \<and>
   find (\<lambda>x. \<forall>y\<in>set [segA, segB].
            min \<bar>start x - 28\<bar> \<bar>end_seg x - 28\<bar> \<le> min \<bar>start y - 28\<bar> \<bar>end_seg y - 28\<bar>)
     [segA, segB] = Some segB"
proof -
  have h1: "transcript newtonVideo = Some [segA, segB]" by (simp add: newtonVideo_def)
  have h2: "[segA, segB] \<noteq> []" by simp
  have h3: "relevantSegments newtonVideo 28 = []" by code_simp
  have c: "windowSegments newtonVideo 28 = [segB]" by code_simp
  from window_fallback [of newtonVideo "[segA, segB]" 28] h1 h2 h3
  obtain s where "windowSegments newtonVideo 28 = [s]"
    "find (\<lambda>x. \<forall>y\<in>set [segA, segB].
            min \<bar>start x - 28\<bar> \<bar>end_seg x - 28\<bar> \<le> min \<bar>start y - 28\<bar> \<bar>end_seg y - 28\<bar>)
       [segA, segB] = Some s"
    by blast
  with h1 h2 h3 c show ?thesis by simp
qed

text \<open>
  C6: for a video of the catalog whose transcript is empty (or missing), and every
  timestamp, the handler sends a result with an empty segment sequence and the fixed text
  \<^verbatim>\<open>Tidak ada konten di timestamp ini\<close> as content, not the empty string.
\<close>

theorem empty_transcript_sentinel:
  assumes "find (\<lambda>v. id_vid v = requestedVideoId currentVideoId args) VIDEOS_DATA = Some v"
    and "transcriptOf v = []"
  shows "\<exists>r. handleGetVideoContent VIDEOS_DATA currentVideoId args callId =
               [NavigateToTimestamp (requestedTimestamp args), SendFunctionResult callId r] \<and>
             success r \<and> segments r = Some [] \<and>
             content r = Some ''Tidak ada konten di timestamp ini'' \<and> content r \<noteq> Some []"
  using assms
  by (simp add: handleGetVideoContent_def Let_def contentResult_def windowSegments_def
      relevantSegments_def closestSeg_def contentTextOf_def noContent_def)

theorem empty_transcript_sentinel_witness:
  "find (\<lambda>v. id_vid v = requestedVideoId None \<lparr>args_timestamp = Some 45, args_video_id = Some ''video_002''\<rparr>)
     [newtonVideo, gerakVideo, bareVideo] = Some gerakVideo \<and>
   transcriptOf gerakVideo = [] \<and>
   handleGetVideoContent [newtonVideo, gerakVideo, bareVideo] None
       \<lparr>args_timestamp = Some 45, args_video_id = Some ''video_002''\<rparr> ''call_1'' =
     [NavigateToTimestamp 45,
      SendFunctionResult ''call_1''
        \<lparr>success = True, video_id = Some ''video_002'', video_title = Some ''Gerak Lurus'',
         timestamp = Some 45, content = Some ''Tidak ada konten di timestamp ini'',
         segments = Some [], message = ''Konten video di detik 45: ''\<rparr>]"
proof -
  let ?args = "\<lparr>args_timestamp = Some 45, args_video_id = Some ''video_002''\<rparr>"
  let ?cat = "[newtonVideo, gerakVideo, bareVideo]"
  have h1: "find (\<lambda>v. id_vid v = requestedVideoId None ?args) ?cat = Some gerakVideo" by code_simp
  have h2: "transcriptOf gerakVideo = []" by code_simp
  have ts: "requestedTimestamp ?args = 45" by code_simp
  have vid: "requestedVideoId None ?args = Some ''video_002''" by code_simp
  have msg: "message (contentResult (Some ''video_002'') gerakVideo 45) = ''Konten video di detik 45: ''"
    by code_simp
  have ttl: "video_title (contentResult (Some ''video_002'') gerakVideo 45) = Some ''Gerak Lurus''"
    by code_simp
  have rest: "video_id (contentResult (Some ''video_002'') gerakVideo 45) = Some ''video_002''"
    "timestamp (contentResult (Some ''video_002'') gerakVideo 45) = Some 45"
    by (simp_all add: contentResult_def Let_def)
  from empty_transcript_sentinel [OF h1 h2, of "''call_1''"]
  obtain r where r: "handleGetVideoContent ?cat None ?args ''call_1'' =
               [NavigateToTimestamp (requestedTimestamp ?args), SendFunctionResult ''call_1'' r]"
     "success r" "segments r = Some []" "content r = Some ''Tidak ada konten di timestamp ini''"
    by blast
  have h1': "find (\<lambda>v. id_vid v = Some ''video_002'') ?cat = Some gerakVideo"
    using h1 by (simp only: vid)
  have "handleGetVideoContent ?cat None ?args ''call_1'' =
      [NavigateToTimestamp 45, SendFunctionResult ''call_1'' (contentResult (Some ''video_002'') gerakVideo 45)]"
    by (simp only: handleGetVideoContent_def Let_def ts vid h1' option.case)
  with r have "r = contentResult (Some ''video_002'') gerakVideo 45" by simp
  with r msg ttl rest have "r = \<lparr>success = True, video_id = Some ''video_002'', video_title = Some ''Gerak Lurus'',
         timestamp = Some 45, content = Some ''Tidak ada konten di timestamp ini'',
         segments = Some [], message = ''Konten video di detik 45: ''\<rparr>"
    by (cases r) simp
  with r(1) h1 h2 ts show ?thesis by simp
qed

text \<open>
  C7: when no video of the catalog has the requested id (the id of the arguments, or the
  current video's id when the arguments carry none), the handler only sends the result with
  \<^verbatim>\<open>success\<close> false and the message \<^verbatim>\<open>Video tidak ditemukan\<close>: it returns normally, the result
  has neither segments nor content, and the page is not asked to seek.
\<close>

theorem unknown_video_not_found:
  assumes "\<forall>v\<in>set VIDEOS_DATA. id_vid v \<noteq> requestedVideoId currentVideoId args"
  shows "handleGetVideoContent VIDEOS_DATA currentVideoId args callId =
           [SendFunctionResult callId notFoundResult] \<and>
         \<not> success notFoundResult \<and> message notFoundResult = ''Video tidak ditemukan'' \<and>
         segments notFoundResult = None \<and> content notFoundResult = None"
proof -
  have "find (\<lambda>v. id_vid v = requestedVideoId currentVideoId args) VIDEOS_DATA = None"
    using assms by (simp add: find_None_iff)
  then show ?thesis
    by (simp add: handleGetVideoContent_def Let_def notFoundResult_def)
qed

theorem unknown_video_not_found_witness:
  "requestedVideoId (Some ''video_001'') \<lparr>args_timestamp = Some 45, args_video_id = Some ''video_009''\<rparr> =
     Some ''video_009'' \<and>
   map id_vid [newtonVideo, gerakVideo, bareVideo] =
     [Some ''video_001'', Some ''video_002'', Some ''video_003''] \<and>
   handleGetVideoContent [newtonVideo, gerakVideo, bareVideo] (Some ''video_001'')
       \<lparr>args_timestamp = Some 45, args_video_id = Some ''video_009''\<rparr> ''call_2'' =
     [SendFunctionResult ''call_2''
        \<lparr>success = False, video_id = None, video_title = None, timestamp = None,
         content = None, segments = None, message = ''Video tidak ditemukan''\<rparr>]"
proof -
  let ?args = "\<lparr>args_timestamp = Some 45, args_video_id = Some ''video_009''\<rparr>"
  let ?cat = "[newtonVideo, gerakVideo, bareVideo]"
  have h: "\<forall>v\<in>set ?cat. id_vid v \<noteq> requestedVideoId (Some ''video_001'') ?args"
    by code_simp
  have r: "requestedVideoId (Some ''video_001'') ?args = Some ''video_009''"
    by code_simp
  have ids: "map id_vid ?cat = [Some ''video_001'', Some ''video_002'', Some ''video_003'']"
    by code_simp
  from unknown_video_not_found [OF h, of "''call_2''"] r ids show ?thesis
    by (simp add: notFoundResult_def)
qed

end
